theory Spec2Isabelle
  imports Main
begin

section \<open>Python strings\<close>

text \<open>
  A Python \<open>str\<close> is a sequence of Unicode code points, so a string is modelled as the
  list of its code points. \<open>lit\<close> reads an ASCII literal of the source as such a list.
\<close>

type_synonym pystr = "nat list"

definition lit :: "string \<Rightarrow> pystr" where
  "lit s = map of_char s"

text \<open>
  \<open>str.isspace\<close> on one code point, which is also the set \<open>str.strip()\<close> removes when
  it is called without an argument: the ASCII controls 9..13 and 28..31, the space,
  U+0085, U+00A0, U+1680, U+2000..U+200A, U+2028, U+2029, U+202F, U+205F and U+3000.
\<close>

definition isspace :: "nat \<Rightarrow> bool" where
  "isspace c =
     ((9 \<le> c \<and> c \<le> 13) \<or> (28 \<le> c \<and> c \<le> 32) \<or> c = 133 \<or> c = 160 \<or> c = 5760 \<or>
      (8192 \<le> c \<and> c \<le> 8202) \<or> c = 8232 \<or> c = 8233 \<or> c = 8239 \<or> c = 8287 \<or>
      c = 12288)"

definition strip :: "pystr \<Rightarrow> pystr" where
  "strip s = rev (dropWhile isspace (rev (dropWhile isspace s)))"

section \<open>The pattern \<open>_RE_EXT\<close>\<close>

text \<open>
  \<^verbatim>\<open>_RE_EXT = re.compile(r"\.nii(?:\.gz)?$", re.IGNORECASE)\<close>

  The pattern is a \<open>str\<close> pattern, so \<open>re.IGNORECASE\<close> folds case by the Unicode
  tables: the letter \<open>n\<close> matches \<open>n\<close> and \<open>N\<close>, \<open>g\<close> matches \<open>g\<close> and \<open>G\<close>, \<open>z\<close> matches
  \<open>z\<close> and \<open>Z\<close>, and \<open>i\<close> matches \<open>i\<close>, \<open>I\<close>, U+0130 (capital I with dot above) and U+0131
  (dotless i). The escaped dot matches the code point 46 only.
\<close>

definition is_n :: "nat \<Rightarrow> bool" where
  "is_n c = (c = 110 \<or> c = 78)"

definition is_i :: "nat \<Rightarrow> bool" where
  "is_i c = (c = 105 \<or> c = 73 \<or> c = 304 \<or> c = 305)"

definition is_g :: "nat \<Rightarrow> bool" where
  "is_g c = (c = 103 \<or> c = 71)"

definition is_z :: "nat \<Rightarrow> bool" where
  "is_z c = (c = 122 \<or> c = 90)"

text \<open>
  The anchor \<open>$\<close>, compiled without \<open>re.MULTILINE\<close>, holds at the end of the string and
  also just before a newline that is the last character of the string. The argument is
  the rest of the subject string at the position tested.
\<close>

definition at_dollar :: "pystr \<Rightarrow> bool" where
  "at_dollar r = (r = [] \<or> r = [10])"

text \<open>The optional group \<open>(?:\.gz)\<close> followed by the anchor.\<close>

fun gz_dollar :: "pystr \<Rightarrow> bool" where
  "gz_dollar (d # g # z # r) = (d = 46 \<and> is_g g \<and> is_z z \<and> at_dollar r)"
| "gz_dollar _ = False"

text \<open>
  One attempt of the matcher at the start of the given rest of the subject: the length
  of the match, if there is one. The optional group is greedy: the matcher first tries
  the pattern with the group and, when that fails, without it.
\<close>

fun RE_EXT_match :: "pystr \<Rightarrow> nat option" where
  "RE_EXT_match (d # n # i # j # r) =
     (if d = 46 \<and> is_n n \<and> is_i i \<and> is_i j
      then (if gz_dollar r then Some 7 else if at_dollar r then Some 4 else None)
      else None)"
| "RE_EXT_match _ = None"

text \<open>\<open>_RE_EXT.search(s)\<close>: the start of the leftmost match, \<open>None\<close> when there is none.\<close>

fun RE_EXT_search :: "pystr \<Rightarrow> nat option" where
  "RE_EXT_search [] = None"
| "RE_EXT_search (c # cs) =
     (case RE_EXT_match (c # cs) of
        Some k \<Rightarrow> Some 0
      | None \<Rightarrow> map_option Suc (RE_EXT_search cs))"

text \<open>
  \<open>_RE_EXT.sub(repl, s)\<close> for a replacement without backslashes: scanning from the left,
  every non-overlapping match is replaced and the scan goes on behind it; a character at
  which no match starts is copied.
\<close>

function RE_EXT_sub :: "pystr \<Rightarrow> pystr \<Rightarrow> pystr" where
  "RE_EXT_sub repl s =
     (case RE_EXT_match s of
        Some k \<Rightarrow> repl @ RE_EXT_sub repl (drop k s)
      | None \<Rightarrow> (case s of [] \<Rightarrow> [] | c # cs \<Rightarrow> c # RE_EXT_sub repl cs))"
  by pat_completeness auto
termination
  by (relation "measure (\<lambda>(repl, s). length s)")
     (auto elim!: RE_EXT_match.elims split: if_splits)

section \<open>Table cells and exceptions\<close>

text \<open>
  A cell of the table read with \<open>dtype=str\<close> is a string or the float \<open>nan\<close> that pandas
  puts for an empty field; \<open>pd.NA\<close> is the value \<open>fill_latent\<close> itself writes into a new
  column.
\<close>

datatype cell = NaN | PdNA | Str pystr

datatype error =
    ValueError pystr
  | TypeError
  | KeyError pystr
  | OSError
  | UnicodeEncodeError

definition latent_npz :: pystr where
  "latent_npz = lit ''_latent.npz''"

section \<open>\<open>make_latent_path\<close>\<close>

text \<open>
  \<^verbatim>\<open>
  def make_latent_path(img_path: str) -> str:
      if not _RE_EXT.search(img_path):
          raise ValueError(f"Unrecognised image extension: {img_path!r}")
      return _RE_EXT.sub("_latent.npz", img_path)
  \<close>
  The function is applied to the cells of a column. On a cell that is not a string the
  call of \<open>search\<close> raises \<open>TypeError\<close>. The \<open>ValueError\<close> carries the offending path, of
  which its message is made.
\<close>

fun make_latent_path :: "cell \<Rightarrow> error + cell" where
  "make_latent_path (Str img_path) =
     (if RE_EXT_search img_path = None then Inl (ValueError img_path)
      else Inr (Str (RE_EXT_sub latent_npz img_path)))"
| "make_latent_path _ = Inl TypeError"

section \<open>Data frames\<close>

text \<open>
  A \<open>DataFrame\<close> as \<open>read_csv\<close> builds it: rows numbered \<open>0..<nrows\<close> and an ordered list
  of labelled columns with one cell per row.
\<close>

record frame =
  nrows :: nat
  columns :: "(pystr \<times> cell list) list"

definition wf_frame :: "frame \<Rightarrow> bool" where
  "wf_frame df =
     (distinct (map fst (columns df)) \<and>
      list_all (\<lambda>kv. length (snd kv) = nrows df) (columns df))"

definition latent_path :: pystr where
  "latent_path = lit ''latent_path''"

definition image_path :: pystr where
  "image_path = lit ''image_path''"

text \<open>\<open>name in df.columns\<close>\<close>

definition has_column :: "frame \<Rightarrow> pystr \<Rightarrow> bool" where
  "has_column df name = (name \<in> set (map fst (columns df)))"

text \<open>\<open>df[name]\<close>, which raises \<open>KeyError\<close> for a label that is not a column.\<close>

definition getitem :: "frame \<Rightarrow> pystr \<Rightarrow> error + cell list" where
  "getitem df name =
     (case map_of (columns df) name of
        None \<Rightarrow> Inl (KeyError name)
      | Some vals \<Rightarrow> Inr vals)"

text \<open>Replacing the cells of an existing column.\<close>

definition set_column :: "frame \<Rightarrow> pystr \<Rightarrow> cell list \<Rightarrow> frame" where
  "set_column df name vals =
     df\<lparr>columns := map (\<lambda>kv. if fst kv = name then (name, vals) else kv) (columns df)\<rparr>"

text \<open>
  \<open>df[name] = v\<close> for a scalar \<open>v\<close>: every row of the column gets \<open>v\<close>; a new column is
  appended behind the existing ones.
\<close>

definition setitem_scalar :: "frame \<Rightarrow> pystr \<Rightarrow> cell \<Rightarrow> frame" where
  "setitem_scalar df name v =
     (if has_column df name then set_column df name (replicate (nrows df) v)
      else df\<lparr>columns := columns df @ [(name, replicate (nrows df) v)]\<rparr>)"

text \<open>\<open>Series.isna()\<close> and \<open>Series.astype(str)\<close>, on one cell.\<close>

fun isna :: "cell \<Rightarrow> bool" where
  "isna NaN = True"
| "isna PdNA = True"
| "isna (Str s) = False"

fun astype_str :: "cell \<Rightarrow> pystr" where
  "astype_str NaN = lit ''nan''"
| "astype_str PdNA = lit ''<NA>''"
| "astype_str (Str s) = s"

text \<open>
  \<^verbatim>\<open>mask_missing = df["latent_path"].isna() | (df["latent_path"].astype(str).str.strip() == "")\<close>
\<close>

definition is_missing :: "cell \<Rightarrow> bool" where
  "is_missing c = (isna c \<or> strip (astype_str c) = [])"

definition mask_missing :: "cell list \<Rightarrow> bool list" where
  "mask_missing lat = map is_missing lat"

text \<open>
  \<open>df.loc[sel, name]\<close> read, for a boolean selection \<open>sel\<close> of the rows: the cells of
  the selected rows, in row order.
  \<open>df.loc[sel, name] = series\<close> written: the selected rows take the values of the
  series, which carries the labels of exactly these rows; the other rows keep theirs.
\<close>

definition loc_get :: "bool list \<Rightarrow> cell list \<Rightarrow> cell list" where
  "loc_get sel vals = map snd (filter fst (zip sel vals))"

fun loc_set :: "bool list \<Rightarrow> cell list \<Rightarrow> cell list \<Rightarrow> cell list" where
  "loc_set (True # sel) (c # cs) (v # vs) = v # loc_set sel cs vs"
| "loc_set (False # sel) (c # cs) vs = c # loc_set sel cs vs"
| "loc_set sel cs vs = cs"

text \<open>
  \<open>Series.apply(f)\<close>: \<open>f\<close> is called on the cells one after the other; the first exception
  ends the call.
\<close>

fun series_apply :: "(cell \<Rightarrow> error + cell) \<Rightarrow> cell list \<Rightarrow> error + cell list" where
  "series_apply f [] = Inr []"
| "series_apply f (x # xs) =
     (case f x of
        Inl e \<Rightarrow> Inl e
      | Inr y \<Rightarrow> (case series_apply f xs of Inl e \<Rightarrow> Inl e | Inr ys \<Rightarrow> Inr (y # ys)))"

section \<open>\<open>fill_latent\<close>\<close>

text \<open>
  \<^verbatim>\<open>
  def fill_latent(df: pd.DataFrame) -> pd.DataFrame:
      if "latent_path" not in df.columns:
          df["latent_path"] = pd.NA
      mask_missing = df["latent_path"].isna() | (df["latent_path"].astype(str).str.strip() == "")
      df.loc[mask_missing, "latent_path"] = (
          df.loc[mask_missing, "image_path"].apply(make_latent_path)
      )
      return df
  \<close>
  The function changes the caller's table in place. Its result is therefore either
  \<open>Returned df'\<close>, the table it returns, or \<open>Raised e df'\<close>: the exception \<open>e\<close> and the
  state \<open>df'\<close> in which it leaves the caller's table. The right-hand side of the
  assignment is evaluated before anything is assigned.
\<close>

datatype fill_result = Returned frame | Raised error frame

fun frame_of :: "fill_result \<Rightarrow> frame" where
  "frame_of (Returned df) = df"
| "frame_of (Raised e df) = df"

definition ensure_latent :: "frame \<Rightarrow> frame" where
  "ensure_latent df =
     (if \<not> has_column df latent_path then setitem_scalar df latent_path PdNA else df)"

definition fill_latent :: "frame \<Rightarrow> fill_result" where
  "fill_latent df =
     (let df1 = ensure_latent df in
      case getitem df1 latent_path of
        Inl e \<Rightarrow> Raised e df1
      | Inr lat \<Rightarrow>
          let missing = mask_missing lat in
          (case getitem df1 image_path of
             Inl e \<Rightarrow> Raised e df1
           | Inr img \<Rightarrow>
               (case series_apply make_latent_path (loc_get missing img) of
                  Inl e \<Rightarrow> Raised e df1
                | Inr vals \<Rightarrow> Returned (set_column df1 latent_path (loc_set missing lat vals)))))"

section \<open>\<open>main\<close>\<close>

text \<open>
  \<^verbatim>\<open>
  def main(argv=None):
      args = parse_args(argv or sys.argv[1:])
      inp = Path(args.inp)
      out = Path(args.out) if args.out else inp
      df = pd.read_csv(inp, dtype=str)
      if "image_path" not in df.columns:
          sys.exit("CSV must contain an 'image_path' column.")
      df = fill_latent(df)
      df.to_csv(out, index=False)
      print(f"Latent paths written \<rightarrow> {out}")
  \<close>
  \<open>main\<close> is modelled from the namespace \<open>parse_args\<close> returns. What it calls outside
  this file is a parameter: \<open>pathlib\<close>'s \<open>Path\<close> and the \<open>str\<close> of a path, \<open>read_csv\<close> with
  \<open>dtype=str\<close>, \<open>to_csv\<close> with \<open>index=False\<close> and \<open>print\<close>, over a state \<open>'w\<close> of the world
  (the file system and the standard output). \<open>to_csv\<close> and \<open>print\<close> are the only calls that
  change it, and each of them can raise: \<open>to_csv\<close> when the file cannot be written,
  \<open>print\<close> with \<open>UnicodeEncodeError\<close> when the encoding of the standard output has no
  code for the arrow U+2192 of the message or for a character of the path. Both return
  the exception, if any, and the world as they leave it.
\<close>

record args =
  inp :: pystr
  out :: "pystr option"

record ('p, 'w) os =
  Path :: "pystr \<Rightarrow> 'p"
  path_str :: "'p \<Rightarrow> pystr"
  read_csv :: "'p \<Rightarrow> 'w \<Rightarrow> error + frame"
  to_csv :: "frame \<Rightarrow> 'p \<Rightarrow> 'w \<Rightarrow> error option \<times> 'w"
  print :: "pystr \<Rightarrow> 'w \<Rightarrow> error option \<times> 'w"

text \<open>
  How the process ends: \<open>main\<close> returns, \<open>sys.exit\<close> is called with a message, or an
  exception is not caught. \<open>sys.exit\<close> with a string prints it on the standard error and
  ends the process with status 1, as an uncaught exception does after its traceback.
\<close>

datatype outcome = Completed | SystemExit pystr | Uncaught error

fun exit_status :: "outcome \<Rightarrow> nat" where
  "exit_status Completed = 0"
| "exit_status (SystemExit msg) = 1"
| "exit_status (Uncaught e) = 1"

definition missing_column_msg :: pystr where
  "missing_column_msg =
     lit ''CSV must contain an '' @ [39] @ lit ''image_path'' @ [39] @ lit '' column.''"

definition written_msg :: "pystr \<Rightarrow> pystr" where
  "written_msg p = lit ''Latent paths written '' @ [8594] @ lit '' '' @ p"

definition out_path :: "('p, 'w) os \<Rightarrow> args \<Rightarrow> 'p" where
  "out_path sys a =
     (case out a of
        None \<Rightarrow> Path sys (inp a)
      | Some p \<Rightarrow> if p \<noteq> [] then Path sys p else Path sys (inp a))"

definition main :: "('p, 'w) os \<Rightarrow> args \<Rightarrow> 'w \<Rightarrow> outcome \<times> 'w" where
  "main sys a w =
     (case read_csv sys (Path sys (inp a)) w of
        Inl e \<Rightarrow> (Uncaught e, w)
      | Inr df \<Rightarrow>
          if \<not> has_column df image_path then (SystemExit missing_column_msg, w)
          else
            (case fill_latent df of
               Raised e df' \<Rightarrow> (Uncaught e, w)
             | Returned df' \<Rightarrow>
                 (case to_csv sys df' (out_path sys a) w of
                    (Some e, w') \<Rightarrow> (Uncaught e, w')
                  | (None, w') \<Rightarrow>
                      (case print sys (written_msg (path_str sys (out_path sys a))) w' of
                         (Some e, w'') \<Rightarrow> (Uncaught e, w'')
                       | (None, w'') \<Rightarrow> (Completed, w'')))))"

section \<open>The vocabulary of the specification\<close>

text \<open>
  The recognized marker: \<open>.nii\<close> or \<open>.nii.gz\<close>, in any case of the letters as the pattern
  folds it. A string ends with the marker when its last four or its last seven
  characters are one.
\<close>

fun marker :: "pystr \<Rightarrow> bool" where
  "marker [d, n, i, j] = (d = 46 \<and> is_n n \<and> is_i i \<and> is_i j)"
| "marker [d, n, i, j, e, g, z] =
     (d = 46 \<and> is_n n \<and> is_i i \<and> is_i j \<and> e = 46 \<and> is_g g \<and> is_z z)"
| "marker _ = False"

definition ends_with_marker :: "pystr \<Rightarrow> bool" where
  "ends_with_marker s =
     (marker (drop (length s - 4) s) \<or> marker (drop (length s - 7) s))"

text \<open>
  A blank cell: unset, or a string that is empty once the surrounding whitespace is
  trimmed.
\<close>

fun blank :: "cell \<Rightarrow> bool" where
  "blank NaN = True"
| "blank PdNA = True"
| "blank (Str s) = (strip s = [])"

text \<open>
  The \<open>latent_path\<close> column on entry to \<open>fill_latent\<close>; a table without the column has
  the value unset in every row.
\<close>

definition prior_latent :: "frame \<Rightarrow> cell list" where
  "prior_latent df =
     (case map_of (columns df) latent_path of
        None \<Rightarrow> replicate (nrows df) PdNA
      | Some lat \<Rightarrow> lat)"

section \<open>Example tables and an example world\<close>

text \<open>
  Three small tables: one without the \<open>latent_path\<close> column, one with a filled, a
  whitespace-only and an unset value in it, and one with an image path that has no
  recognized extension.
\<close>

definition example_absent :: frame where
  "example_absent =
     \<lparr>nrows = 2,
      columns = [(image_path, [Str (lit ''a.nii''), Str (lit ''b.NII.GZ'')])]\<rparr>"

definition example_partial :: frame where
  "example_partial =
     \<lparr>nrows = 3,
      columns =
        [(image_path, [Str (lit ''a.nii''), Str (lit ''b.nii.gz''), Str (lit ''c.nii'')]),
         (latent_path, [Str (lit ''kept.npz''), Str (lit ''  ''), NaN])]\<rparr>"

definition example_bad :: frame where
  "example_bad =
     \<lparr>nrows = 2,
      columns = [(image_path, [Str (lit ''a.nii''), Str (lit ''b.txt'')])]\<rparr>"

text \<open>A table without the column \<open>image_path\<close>.\<close>

definition example_no_image :: frame where
  "example_no_image = \<lparr>nrows = 1, columns = [(lit ''path'', [Str (lit ''a.nii'')])]\<rparr>"

text \<open>
  An instance of the interface \<open>main\<close> runs against, kept in memory: the files are a list
  of paths with the tables stored under them, the standard output is a list of lines and
  takes every code point, as a UTF-8 terminal does.
\<close>

definition mem_os :: "(pystr, (pystr \<times> frame) list \<times> pystr list) os" where
  "mem_os =
     \<lparr>Path = (\<lambda>s. s),
      path_str = (\<lambda>p. p),
      read_csv = (\<lambda>p w. case map_of (fst w) p of None \<Rightarrow> Inl OSError | Some df \<Rightarrow> Inr df),
      to_csv = (\<lambda>df p w. (None, ((p, df) # fst w, snd w))),
      print = (\<lambda>line w. (None, (fst w, snd w @ [line])))\<rparr>"

text \<open>
  The same world with a standard output in ASCII: \<open>print\<close> raises on a line with a code
  point above 127 and writes nothing of it.
\<close>

definition ascii_os :: "(pystr, (pystr \<times> frame) list \<times> pystr list) os" where
  "ascii_os =
     mem_os\<lparr>print := (\<lambda>line w.
        if list_all (\<lambda>c. c < 128) line then (None, (fst w, snd w @ [line]))
        else (Some UnicodeEncodeError, w))\<rparr>"

section \<open>The pattern finds the trailing marker and nothing else\<close>

lemma marker_cases:
  assumes "marker m"
  obtains d n i j where "m = [d, n, i, j]" "d = 46" "is_n n" "is_i i" "is_i j"
  | d n i j e g z where "m = [d, n, i, j, e, g, z]" "d = 46" "is_n n" "is_i i" "is_i j"
      "e = 46" "is_g g" "is_z z"
  using assms by (auto elim!: marker.elims)

lemma match_marker:
  assumes "marker m" "at_dollar r"
  shows "RE_EXT_match (m @ r) = Some (length m)"
  using assms by (auto elim!: marker_cases simp: at_dollar_def is_g_def is_z_def is_i_def)

lemma match_SomeD:
  assumes "RE_EXT_match s = Some k"
  shows "\<exists>m r. s = m @ r \<and> marker m \<and> at_dollar r \<and> k = length m"
proof -
  from assms obtain d n i j t where s: "s = d # n # i # j # t"
    and h: "d = 46" "is_n n" "is_i i" "is_i j"
    and k: "(gz_dollar t \<and> k = 7) \<or> (\<not> gz_dollar t \<and> at_dollar t \<and> k = 4)"
    by (auto elim!: RE_EXT_match.elims split: if_splits)
  from k show ?thesis
  proof
    assume a: "gz_dollar t \<and> k = 7"
    then obtain e g z r where t: "t = e # g # z # r" and g: "e = 46" "is_g g" "is_z z" "at_dollar r"
      by (auto elim!: gz_dollar.elims)
    have "s = [d, n, i, j, e, g, z] @ r" using s t by simp
    moreover have "marker [d, n, i, j, e, g, z]" using h g by simp
    ultimately show ?thesis using g a by (intro exI[of _ "[d, n, i, j, e, g, z]"] exI[of _ r]) simp
  next
    assume a: "\<not> gz_dollar t \<and> at_dollar t \<and> k = 4"
    have "s = [d, n, i, j] @ t" using s by simp
    moreover have "marker [d, n, i, j]" using h by simp
    ultimately show ?thesis using a by (intro exI[of _ "[d, n, i, j]"] exI[of _ t]) simp
  qed
qed

lemma not_is_n_dot: "\<not> is_n 46"
  by (simp add: is_n_def)

lemma not_is_i_dot: "\<not> is_i 46"
  by (simp add: is_i_def)

lemma is_n_not_g: "is_n c \<Longrightarrow> \<not> is_g c"
  by (auto simp: is_n_def is_g_def)

lemma at_dollar_short: "1 < length s \<Longrightarrow> \<not> at_dollar s"
  by (auto simp: at_dollar_def)

lemma gz_dollar_short: "4 < length s \<Longrightarrow> \<not> gz_dollar s"
  by (auto elim!: gz_dollar.elims simp: at_dollar_def)

lemma match_inner_None:
  assumes "marker m" "at_dollar r"
  shows "RE_EXT_match (c # p @ m @ r) = None"
proof -
  from assms(1) obtain d n i j t where
    m: "m = d # n # i # j # t" and d: "d = 46" and n: "is_n n"
    by (auto elim: marker_cases)
  show ?thesis
  proof (cases p)
    case Nil
    then show ?thesis using m d by (simp add: not_is_n_dot)
  next
    case p1: (Cons a1 p1)
    show ?thesis
    proof (cases p1)
      case Nil
      then show ?thesis using p1 m d by (simp add: not_is_i_dot)
    next
      case p2: (Cons a2 p2)
      show ?thesis
      proof (cases p2)
        case Nil
        then show ?thesis using p1 p2 m d by (simp add: not_is_i_dot)
      next
        case p3: (Cons a3 p3)
        show ?thesis
        proof (cases p3)
          case Nil
          have "\<not> at_dollar (d # n # i # j # t @ r)"
            by (rule at_dollar_short) simp
          then show ?thesis using Nil p1 p2 p3 m n by (simp add: is_n_not_g)
        next
          case p4: (Cons a4 p4)
          have "\<not> at_dollar (a4 # p4 @ m @ r)"
            by (rule at_dollar_short) (simp add: m)
          moreover have "\<not> gz_dollar (a4 # p4 @ m @ r)"
            by (rule gz_dollar_short) (simp add: m)
          ultimately show ?thesis using p1 p2 p3 p4 by simp
        qed
      qed
    qed
  qed
qed

lemma sub_marker:
  assumes "marker m" "at_dollar r"
  shows "RE_EXT_sub repl (p @ m @ r) = p @ repl @ r"
proof (induction p)
  case Nil
  have r: "RE_EXT_sub repl r = r"
    using assms(2) by (auto simp: at_dollar_def)
  show ?case
    using match_marker[OF assms] r by (subst RE_EXT_sub.simps) simp
next
  case (Cons c p)
  show ?case
    using match_inner_None[OF assms, of c p] Cons by (subst RE_EXT_sub.simps) simp
qed

lemma search_marker:
  assumes "marker m" "at_dollar r"
  shows "RE_EXT_search (p @ m @ r) \<noteq> None"
proof (induction p)
  case Nil
  from assms(1) have "m \<noteq> []" by (auto elim: marker_cases)
  then obtain c cs where "m @ r = c # cs" by (cases m) auto
  then show ?case using match_marker[OF assms] by simp
next
  case (Cons c p)
  then show ?case by (auto split: option.splits)
qed

lemma search_SomeD:
  "RE_EXT_search s \<noteq> None \<Longrightarrow> \<exists>p m r. s = p @ m @ r \<and> marker m \<and> at_dollar r"
proof (induction s)
  case Nil
  then show ?case by simp
next
  case (Cons c cs)
  show ?case
  proof (cases "RE_EXT_match (c # cs)")
    case None
    with Cons.prems have "RE_EXT_search cs \<noteq> None" by simp
    from Cons.IH[OF this] obtain p m r where "cs = p @ m @ r" "marker m" "at_dollar r" by blast
    then have "c # cs = (c # p) @ m @ r \<and> marker m \<and> at_dollar r" by simp
    then show ?thesis by blast
  next
    case (Some k)
    from match_SomeD[OF this] obtain m r where "c # cs = [] @ m @ r \<and> marker m \<and> at_dollar r"
      by auto
    then show ?thesis by blast
  qed
qed

lemma strip_Nil_iff: "strip s = [] \<longleftrightarrow> (\<forall>c \<in> set s. isspace c)"
proof
  assume "strip s = []"
  then have a: "\<forall>c \<in> set (dropWhile isspace s). isspace c"
    by (simp add: strip_def dropWhile_eq_Nil_conv)
  have "dropWhile isspace s = []"
  proof (rule ccontr)
    assume "dropWhile isspace s \<noteq> []"
    then have "\<not> isspace (hd (dropWhile isspace s))" "hd (dropWhile isspace s) \<in> set (dropWhile isspace s)"
      by (simp_all add: hd_dropWhile)
    with a show False by blast
  qed
  then show "\<forall>c \<in> set s. isspace c" by (simp add: dropWhile_eq_Nil_conv)
next
  assume "\<forall>c \<in> set s. isspace c"
  then show "strip s = []" by (auto simp: strip_def dest: set_dropWhileD)
qed

lemma is_missing_blank: "is_missing c = blank c"
  by (cases c) (simp_all add: is_missing_def)

lemma latent_npz_not_blank: "strip (p @ latent_npz @ r) \<noteq> []"
proof -
  have "95 \<in> set (p @ latent_npz @ r)" by (simp add: latent_npz_def lit_def)
  moreover have "\<not> isspace 95" by (simp add: isspace_def)
  ultimately show ?thesis unfolding strip_Nil_iff by blast
qed

lemma make_latent_path_InrD:
  assumes "make_latent_path c = Inr c'"
  shows "\<exists>p m r. c = Str (p @ m @ r) \<and> marker m \<and> at_dollar r \<and> c' = Str (p @ latent_npz @ r)"
proof -
  from assms obtain s where c: "c = Str s" and s: "RE_EXT_search s \<noteq> None"
    and c': "c' = Str (RE_EXT_sub latent_npz s)"
    by (cases c) (auto split: if_splits)
  from search_SomeD[OF s] obtain p m r where "s = p @ m @ r" "marker m" "at_dollar r" by blast
  then show ?thesis using c c' sub_marker by blast
qed

lemma make_latent_path_not_blank:
  assumes "make_latent_path c = Inr c'"
  shows "\<not> blank c'"
  using make_latent_path_InrD[OF assms] latent_npz_not_blank by auto

lemma make_latent_path_marker:
  assumes "marker m" "at_dollar r"
  shows "make_latent_path (Str (p @ m @ r)) = Inr (Str (p @ latent_npz @ r))"
  using search_marker[OF assms, of p] sub_marker[OF assms, of latent_npz p] by simp

lemma ends_with_marker_iff: "ends_with_marker s \<longleftrightarrow> (\<exists>p m. s = p @ m \<and> marker m)"
proof
  assume "ends_with_marker s"
  then consider "marker (drop (length s - 4) s)" | "marker (drop (length s - 7) s)"
    by (auto simp: ends_with_marker_def)
  then show "\<exists>p m. s = p @ m \<and> marker m"
  proof cases
    case 1
    have "s = take (length s - 4) s @ drop (length s - 4) s" by simp
    with 1 show ?thesis by blast
  next
    case 2
    have "s = take (length s - 7) s @ drop (length s - 7) s" by simp
    with 2 show ?thesis by blast
  qed
next
  assume "\<exists>p m. s = p @ m \<and> marker m"
  then obtain p m where s: "s = p @ m" and m: "marker m" by blast
  from m have "length m = 4 \<or> length m = 7" by (auto elim: marker_cases)
  then show "ends_with_marker s" using s m by (auto simp: ends_with_marker_def)
qed

text \<open>
  When \<open>make_latent_path\<close> raises \<open>ValueError\<close>: exactly on the strings that have a
  marker neither at their end nor in front of one final newline.
\<close>

lemma make_latent_path_raises_iff:
  "make_latent_path (Str s) = Inl (ValueError s) \<longleftrightarrow>
     \<not> (ends_with_marker s \<or> (\<exists>s'. s = s' @ [10] \<and> ends_with_marker s'))"
proof -
  have "RE_EXT_search s \<noteq> None \<longleftrightarrow>
      (ends_with_marker s \<or> (\<exists>s'. s = s' @ [10] \<and> ends_with_marker s'))"
  proof
    assume "RE_EXT_search s \<noteq> None"
    from search_SomeD[OF this] obtain p m r where
      s: "s = p @ m @ r" and m: "marker m" and r: "r = [] \<or> r = [10]"
      by (auto simp: at_dollar_def)
    from r show "ends_with_marker s \<or> (\<exists>s'. s = s' @ [10] \<and> ends_with_marker s')"
    proof
      assume "r = []"
      then show ?thesis using s m by (auto simp: ends_with_marker_iff)
    next
      assume "r = [10]"
      then have "s = (p @ m) @ [10] \<and> ends_with_marker (p @ m)"
        using s m by (auto simp: ends_with_marker_iff)
      then show ?thesis by blast
    qed
  next
    assume "ends_with_marker s \<or> (\<exists>s'. s = s' @ [10] \<and> ends_with_marker s')"
    then show "RE_EXT_search s \<noteq> None"
    proof
      assume "ends_with_marker s"
      then obtain p m where "s = p @ m @ []" "marker m" by (auto simp: ends_with_marker_iff)
      then show ?thesis using search_marker[of m "[]" p] by (simp add: at_dollar_def)
    next
      assume "\<exists>s'. s = s' @ [10] \<and> ends_with_marker s'"
      then obtain p m where "s = p @ m @ [10]" "marker m" by (auto simp: ends_with_marker_iff)
      then show ?thesis using search_marker[of m "[10]" p] by (simp add: at_dollar_def)
    qed
  qed
  then show ?thesis by auto
qed

section \<open>Columns, selections and the two outcomes of \<open>fill_latent\<close>\<close>

lemma image_neq_latent: "image_path \<noteq> latent_path"
  by (simp add: image_path_def latent_path_def lit_def)

lemma map_of_replace_other:
  "k \<noteq> name \<Longrightarrow>
     map_of (map (\<lambda>kv. if fst kv = name then (name, vals) else kv) xs) k = map_of xs k"
  by (induction xs) auto

lemma map_of_replace_same:
  "map_of (map (\<lambda>kv. if fst kv = name then (name, vals) else kv) xs) name =
     (case map_of xs name of None \<Rightarrow> None | Some old \<Rightarrow> Some vals)"
  by (induction xs) auto

lemma map_of_set_column_other:
  "k \<noteq> name \<Longrightarrow> map_of (columns (set_column df name vals)) k = map_of (columns df) k"
  by (simp add: set_column_def map_of_replace_other)

lemma map_of_set_column_same:
  "map_of (columns df) name = Some old \<Longrightarrow>
     map_of (columns (set_column df name vals)) name = Some vals"
  by (simp add: set_column_def map_of_replace_same)

lemma names_set_column: "map fst (columns (set_column df name vals)) = map fst (columns df)"
  by (simp add: set_column_def comp_def if_distrib[of fst] cong: if_cong)

lemma nrows_set_column: "nrows (set_column df name vals) = nrows df"
  by (simp add: set_column_def)

lemma set_column_same:
  assumes "distinct (map fst (columns df))" "map_of (columns df) name = Some vals"
  shows "set_column df name vals = df"
proof -
  have "map (\<lambda>kv. if fst kv = name then (name, vals) else kv) (columns df) = columns df"
  proof (rule map_idI)
    fix kv assume kv: "kv \<in> set (columns df)"
    show "(if fst kv = name then (name, vals) else kv) = kv"
    proof (cases "fst kv = name")
      case True
      then have "(name, snd kv) \<in> set (columns df)" using kv by (cases kv) auto
      then have "map_of (columns df) name = Some (snd kv)" using assms(1) by simp
      then show ?thesis using assms(2) True by (cases kv) auto
    next
      case False
      then show ?thesis by simp
    qed
  qed
  then show ?thesis by (simp add: set_column_def)
qed

lemma has_column_map_of: "has_column df name \<longleftrightarrow> map_of (columns df) name \<noteq> None"
  by (simp add: has_column_def map_of_eq_None_iff)

lemma getitem_Inr_iff: "getitem df name = Inr vals \<longleftrightarrow> map_of (columns df) name = Some vals"
  by (simp add: getitem_def split: option.splits)

lemma ensure_latent_present: "has_column df latent_path \<Longrightarrow> ensure_latent df = df"
  by (simp add: ensure_latent_def)

lemma ensure_latent_absent:
  "\<not> has_column df latent_path \<Longrightarrow>
     ensure_latent df = df\<lparr>columns := columns df @ [(latent_path, replicate (nrows df) PdNA)]\<rparr>"
  by (simp add: ensure_latent_def setitem_scalar_def)

lemma nrows_ensure_latent: "nrows (ensure_latent df) = nrows df"
  by (simp add: ensure_latent_def setitem_scalar_def)

lemma map_of_ensure_latent:
  "map_of (columns (ensure_latent df)) name =
     (if name = latent_path then Some (prior_latent df) else map_of (columns df) name)"
  by (auto simp: ensure_latent_def setitem_scalar_def prior_latent_def has_column_map_of
      map_add_def split: option.splits)

lemma names_ensure_latent:
  "map fst (columns (ensure_latent df)) =
     (if has_column df latent_path then map fst (columns df)
      else map fst (columns df) @ [latent_path])"
  by (simp add: ensure_latent_def setitem_scalar_def)

lemma wf_ensure_latent: "wf_frame df \<Longrightarrow> wf_frame (ensure_latent df)"
  by (auto simp: ensure_latent_def setitem_scalar_def wf_frame_def has_column_def)

lemma wf_column_length:
  "wf_frame df \<Longrightarrow> map_of (columns df) name = Some vals \<Longrightarrow> length vals = nrows df"
  by (auto simp: wf_frame_def list_all_iff dest!: map_of_SomeD)

lemma length_prior_latent: "wf_frame df \<Longrightarrow> length (prior_latent df) = nrows df"
  using wf_column_length[OF wf_ensure_latent, of df latent_path "prior_latent df"]
  by (simp add: map_of_ensure_latent nrows_ensure_latent)

lemma wf_set_column:
  "wf_frame df \<Longrightarrow> length vals = nrows df \<Longrightarrow> wf_frame (set_column df name vals)"
  unfolding wf_frame_def names_set_column
  by (auto simp: set_column_def list_all_iff)

lemma series_apply_InrD:
  "series_apply f xs = Inr ys \<Longrightarrow> list_all2 (\<lambda>x y. f x = Inr y) xs ys"
  by (induction xs arbitrary: ys) (auto split: sum.splits)

lemma series_apply_InlD:
  "series_apply f xs = Inl e \<Longrightarrow> \<exists>x \<in> set xs. f x = Inl e"
  by (induction xs) (auto split: sum.splits)

lemma series_apply_total:
  "\<forall>x \<in> set xs. \<exists>y. f x = Inr y \<Longrightarrow> \<exists>ys. series_apply f xs = Inr ys"
  by (induction xs) (auto split: sum.splits)

lemma series_apply_fails:
  "x \<in> set xs \<Longrightarrow> f x = Inl e0 \<Longrightarrow> \<exists>e. series_apply f xs = Inl e"
  by (induction xs) (auto split: sum.splits)

lemma length_loc_set: "length (loc_set sel cs vs) = length cs"
  by (induction sel cs vs rule: loc_set.induct) auto

lemma loc_set_Nil: "loc_set sel cs [] = cs"
  by (induction sel cs "[] :: cell list" rule: loc_set.induct) auto

lemma loc_get_Cons:
  "loc_get (b # sel) (x # xs) = (if b then x # loc_get sel xs else loc_get sel xs)"
  by (simp add: loc_get_def)

lemma loc_get_none: "\<forall>b \<in> set sel. \<not> b \<Longrightarrow> loc_get sel xs = []"
  by (auto simp: loc_get_def filter_empty_conv dest: set_zip_leftD)

lemma in_loc_get_iff:
  "length sel = length xs \<Longrightarrow>
     x \<in> set (loc_get sel xs) \<longleftrightarrow> (\<exists>i < length xs. sel ! i \<and> xs ! i = x)"
proof (induction sel xs rule: list_induct2)
  case Nil
  show ?case by (simp add: loc_get_def)
next
  case (Cons b sel y xs)
  show ?case
    using Cons.IH by (auto simp: loc_get_Cons less_Suc_eq_0_disj)
qed

lemma loc_fill:
  assumes "length sel = length cs" "length cs = length img"
    and "list_all2 (\<lambda>x y. f x = Inr y) (loc_get sel img) vs" "i < length cs"
  shows "(sel ! i \<longrightarrow> f (img ! i) = Inr (loc_set sel cs vs ! i)) \<and>
         (\<not> sel ! i \<longrightarrow> loc_set sel cs vs ! i = cs ! i)"
  using assms
proof (induction sel cs img arbitrary: vs i rule: list_induct3)
  case Nil
  then show ?case by simp
next
  case (Cons b sel c cs x img)
  show ?case
  proof (cases b)
    case True
    with Cons.prems(1) obtain v vs' where vs: "vs = v # vs'" and v: "f x = Inr v"
      and rest: "list_all2 (\<lambda>x y. f x = Inr y) (loc_get sel img) vs'"
      by (auto simp: loc_get_Cons list_all2_Cons1)
    show ?thesis
    proof (cases i)
      case 0
      then show ?thesis using True vs v by simp
    next
      case (Suc j)
      then show ?thesis using True vs Cons.IH[OF rest, of j] Cons.prems(2) by simp
    qed
  next
    case False
    with Cons.prems(1) have rest: "list_all2 (\<lambda>x y. f x = Inr y) (loc_get sel img) vs"
      by (simp add: loc_get_Cons)
    show ?thesis
    proof (cases i)
      case 0
      then show ?thesis using False by simp
    next
      case (Suc j)
      then show ?thesis using False Cons.IH[OF rest, of j] Cons.prems(2) by simp
    qed
  qed
qed

lemma getitem_ensure_latent_latent: "getitem (ensure_latent df) latent_path = Inr (prior_latent df)"
  by (simp add: getitem_def map_of_ensure_latent)

lemma getitem_ensure_latent_image: "getitem (ensure_latent df) image_path = getitem df image_path"
  by (simp add: getitem_def map_of_ensure_latent image_neq_latent)

lemma fill_latent_unfold:
  assumes "getitem df image_path = Inr img"
  shows "fill_latent df =
     (case series_apply make_latent_path (loc_get (mask_missing (prior_latent df)) img) of
        Inl e \<Rightarrow> Raised e (ensure_latent df)
      | Inr vals \<Rightarrow>
          Returned (set_column (ensure_latent df) latent_path
            (loc_set (mask_missing (prior_latent df)) (prior_latent df) vals)))"
  using assms
  by (simp add: fill_latent_def Let_def getitem_ensure_latent_latent getitem_ensure_latent_image)

lemma fill_latent_no_image:
  assumes "getitem df image_path = Inl e"
  shows "fill_latent df = Raised e (ensure_latent df)"
  using assms
  by (simp add: fill_latent_def Let_def getitem_ensure_latent_latent getitem_ensure_latent_image)

lemma fill_latent_cases:
  assumes wf: "wf_frame df" and img: "getitem df image_path = Inr img"
  shows "(\<exists>e. fill_latent df = Raised e (ensure_latent df) \<and>
            (\<exists>i < nrows df. is_missing (prior_latent df ! i) \<and> make_latent_path (img ! i) = Inl e)) \<or>
         (\<exists>lat'. fill_latent df = Returned (set_column (ensure_latent df) latent_path lat') \<and>
            length lat' = nrows df \<and>
            (\<forall>i < nrows df.
               (is_missing (prior_latent df ! i) \<longrightarrow> make_latent_path (img ! i) = Inr (lat' ! i)) \<and>
               (\<not> is_missing (prior_latent df ! i) \<longrightarrow> lat' ! i = prior_latent df ! i)))"
proof -
  let ?lat = "prior_latent df"
  let ?sel = "mask_missing ?lat"
  have len_lat: "length ?lat = nrows df" using wf by (rule length_prior_latent)
  have len_img: "length img = nrows df"
    using wf img by (simp add: getitem_Inr_iff wf_column_length)
  have len_sel: "length ?sel = nrows df" using len_lat by (simp add: mask_missing_def)
  have sel: "?sel ! i = is_missing (?lat ! i)" if "i < nrows df" for i
    using that len_lat by (simp add: mask_missing_def)
  show ?thesis
  proof (cases "series_apply make_latent_path (loc_get ?sel img)")
    case (Inl e)
    from series_apply_InlD[OF Inl] obtain x where
      x: "x \<in> set (loc_get ?sel img)" and e: "make_latent_path x = Inl e" by blast
    from x obtain i where "i < nrows df" "?sel ! i" "img ! i = x"
      using in_loc_get_iff[of ?sel img x] len_sel len_img by auto
    then have "\<exists>i < nrows df. is_missing (?lat ! i) \<and> make_latent_path (img ! i) = Inl e"
      using e sel by auto
    moreover have "fill_latent df = Raised e (ensure_latent df)"
      using Inl by (simp add: fill_latent_unfold[OF img])
    ultimately show ?thesis by blast
  next
    case (Inr vals)
    let ?lat' = "loc_set ?sel ?lat vals"
    have ret: "fill_latent df = Returned (set_column (ensure_latent df) latent_path ?lat')"
      using Inr by (simp add: fill_latent_unfold[OF img])
    have point: "(is_missing (?lat ! i) \<longrightarrow> make_latent_path (img ! i) = Inr (?lat' ! i)) \<and>
                 (\<not> is_missing (?lat ! i) \<longrightarrow> ?lat' ! i = ?lat ! i)" if i: "i < nrows df" for i
    proof -
      have "(?sel ! i \<longrightarrow> make_latent_path (img ! i) = Inr (?lat' ! i)) \<and>
            (\<not> ?sel ! i \<longrightarrow> ?lat' ! i = ?lat ! i)"
        by (rule loc_fill[OF _ _ series_apply_InrD[OF Inr]])
           (simp_all add: len_sel len_lat len_img i)
      then show ?thesis using sel[OF i] by simp
    qed
    have "length ?lat' = nrows df" by (simp add: length_loc_set len_lat)
    with ret point show ?thesis by blast
  qed
qed

lemma marked_cell_ok:
  assumes "ends_with_marker s"
  shows "\<exists>p m. s = p @ m \<and> marker m \<and> make_latent_path (Str s) = Inr (Str (p @ latent_npz))"
proof -
  from assms obtain p m where s: "s = p @ m" and m: "marker m"
    by (auto simp: ends_with_marker_iff)
  have "make_latent_path (Str (p @ m @ [])) = Inr (Str (p @ latent_npz @ []))"
    by (rule make_latent_path_marker[OF m]) (simp add: at_dollar_def)
  then show ?thesis using s m by auto
qed

lemma fill_latent_succeeds:
  assumes wf: "wf_frame df" and img: "getitem df image_path = Inr img"
    and ok: "\<forall>c \<in> set img. \<exists>s. c = Str s \<and> ends_with_marker s"
  shows "\<exists>lat'. fill_latent df = Returned (set_column (ensure_latent df) latent_path lat') \<and>
            length lat' = nrows df \<and>
            (\<forall>i < nrows df.
               (is_missing (prior_latent df ! i) \<longrightarrow> make_latent_path (img ! i) = Inr (lat' ! i)) \<and>
               (\<not> is_missing (prior_latent df ! i) \<longrightarrow> lat' ! i = prior_latent df ! i))"
proof -
  have len_img: "length img = nrows df"
    using wf img by (simp add: getitem_Inr_iff wf_column_length)
  have "\<not> (\<exists>e. \<exists>i < nrows df. make_latent_path (img ! i) = Inl e)"
  proof
    assume "\<exists>e. \<exists>i < nrows df. make_latent_path (img ! i) = Inl e"
    then obtain e i where i: "i < nrows df" and e: "make_latent_path (img ! i) = Inl e" by blast
    from i len_img have "img ! i \<in> set img" by simp
    with ok obtain s where "img ! i = Str s" "ends_with_marker s" by blast
    with marked_cell_ok[of s] e show False by auto
  qed
  with fill_latent_cases[OF wf img] show ?thesis by blast
qed

lemmas eval_defs =
  fill_latent_def Let_def ensure_latent_def has_column_def setitem_scalar_def getitem_def
  mask_missing_def is_missing_def strip_def isspace_def loc_get_def set_column_def
  latent_path_def image_path_def lit_def latent_npz_def is_n_def is_i_def is_g_def is_z_def
  at_dollar_def wf_frame_def ends_with_marker_def prior_latent_def

lemma not_missing_nonempty:
  assumes "\<not> is_missing c"
  shows "\<exists>t. c = Str t \<and> t \<noteq> []"
  using assms by (cases c) (auto simp: is_missing_def strip_def)

lemma prior_latent_getitem: "getitem df latent_path = Inr lat \<Longrightarrow> prior_latent df = lat"
  by (simp add: getitem_Inr_iff prior_latent_def)

lemma frame_of_fill_latent:
  assumes "wf_frame df"
  shows "frame_of (fill_latent df) = ensure_latent df \<or>
         (\<exists>lat'. frame_of (fill_latent df) = set_column (ensure_latent df) latent_path lat' \<and>
            (\<forall>i < nrows df. \<not> is_missing (prior_latent df ! i) \<longrightarrow> lat' ! i = prior_latent df ! i))"
proof (cases "getitem df image_path")
  case (Inl e)
  then show ?thesis by (simp add: fill_latent_no_image)
next
  case (Inr img)
  from fill_latent_cases[OF assms Inr] show ?thesis by (elim disjE exE conjE) auto
qed

lemma fill_latent_example_partial:
  "fill_latent example_partial =
     Returned \<lparr>nrows = 3,
       columns =
         [(image_path, [Str (lit ''a.nii''), Str (lit ''b.nii.gz''), Str (lit ''c.nii'')]),
          (latent_path,
           [Str (lit ''kept.npz''), Str (lit ''b_latent.npz''), Str (lit ''c_latent.npz'')])]\<rparr>"
  by (simp add: example_partial_def eval_defs)

lemma fill_latent_idem:
  assumes wf: "wf_frame df" and ret: "fill_latent df = Returned df'"
  shows "fill_latent df' = Returned df'"
proof -
  from ret obtain img where img: "getitem df image_path = Inr img"
    by (cases "getitem df image_path") (auto simp: fill_latent_no_image)
  from fill_latent_cases[OF wf img] ret obtain lat' where
    df': "df' = set_column (ensure_latent df) latent_path lat'"
    and len: "length lat' = nrows df"
    and point: "\<forall>i < nrows df.
       (is_missing (prior_latent df ! i) \<longrightarrow> make_latent_path (img ! i) = Inr (lat' ! i)) \<and>
       (\<not> is_missing (prior_latent df ! i) \<longrightarrow> lat' ! i = prior_latent df ! i)"
    by auto
  have wf': "wf_frame df'"
    unfolding df' using wf len
    by (intro wf_set_column wf_ensure_latent) (simp_all add: nrows_ensure_latent)
  have lat: "map_of (columns df') latent_path = Some lat'"
    unfolding df'
    by (simp add: map_of_set_column_same[of _ _ "prior_latent df"] map_of_ensure_latent)
  have img': "getitem df' image_path = Inr img"
    using img unfolding df'
    by (simp add: getitem_def map_of_set_column_other map_of_ensure_latent image_neq_latent)
  have ens: "ensure_latent df' = df'"
    using lat by (simp add: ensure_latent_present has_column_map_of)
  have prior: "prior_latent df' = lat'"
    using lat by (simp add: prior_latent_def)
  have filled: "\<not> is_missing c" if "c \<in> set lat'" for c
  proof -
    from that len obtain i where i: "i < nrows df" "lat' ! i = c"
      by (auto simp: in_set_conv_nth)
    show ?thesis
    proof (cases "is_missing (prior_latent df ! i)")
      case True
      with point i have "make_latent_path (img ! i) = Inr c" by auto
      from make_latent_path_not_blank[OF this] show ?thesis by (simp add: is_missing_blank)
    next
      case False
      with point i show ?thesis by auto
    qed
  qed
  then have none: "loc_get (mask_missing lat') img = []"
    by (intro loc_get_none) (auto simp: mask_missing_def)
  have dist: "distinct (map fst (columns df'))" using wf' by (simp add: wf_frame_def)
  show ?thesis
    by (simp add: fill_latent_unfold[OF img'] ens prior none loc_set_Nil
        set_column_same[OF dist lat])
qed

lemma getitem_has_column: "getitem df name = Inr vals \<Longrightarrow> has_column df name"
  by (simp add: getitem_Inr_iff has_column_map_of)

lemma fill_latent_raises:
  assumes wf: "wf_frame df" and img: "getitem df image_path = Inr img"
    and i: "i < nrows df" "is_missing (prior_latent df ! i)" "make_latent_path (img ! i) = Inl e0"
  shows "\<exists>e. fill_latent df = Raised e (ensure_latent df) \<and>
           (\<exists>j < nrows df. is_missing (prior_latent df ! j) \<and> make_latent_path (img ! j) = Inl e)"
proof -
  have "\<not> (\<exists>lat'. \<forall>i < nrows df.
       (is_missing (prior_latent df ! i) \<longrightarrow> make_latent_path (img ! i) = Inr (lat' ! i)) \<and>
       (\<not> is_missing (prior_latent df ! i) \<longrightarrow> lat' ! i = prior_latent df ! i))"
    using i by auto
  with fill_latent_cases[OF wf img] show ?thesis by blast
qed

lemma main_raised:
  assumes "read_csv sys (Path sys (inp a)) w = Inr df" "has_column df image_path"
    "fill_latent df = Raised e df'"
  shows "main sys a w = (Uncaught e, w)"
  using assms by (simp add: main_def)

lemma example_bad_facts:
  "wf_frame example_bad"
  "getitem example_bad image_path = Inr [Str (lit ''a.nii''), Str (lit ''b.txt'')]"
  "(1::nat) < nrows example_bad"
  "\<not> has_column example_bad latent_path"
  "is_missing (prior_latent example_bad ! 1)"
  "make_latent_path ([Str (lit ''a.nii''), Str (lit ''b.txt'')] ! 1) = Inl (ValueError (lit ''b.txt''))"
  by (simp_all add: example_bad_def wf_frame_def getitem_def has_column_def prior_latent_def
      is_missing_def image_neq_latent lit_def image_path_def latent_path_def
      is_n_def is_i_def)

lemma fill_latent_example_bad:
  "fill_latent example_bad =
     Raised (ValueError (lit ''b.txt''))
       \<lparr>nrows = 2,
        columns =
          [(image_path, [Str (lit ''a.nii''), Str (lit ''b.txt'')]),
           (latent_path, [PdNA, PdNA])]\<rparr>"
  by (simp add: example_bad_def eval_defs numeral_2_eq_2)

lemma fill_latent_example_absent:
  "fill_latent example_absent =
     Returned
       \<lparr>nrows = 2,
        columns =
          [(image_path, [Str (lit ''a.nii''), Str (lit ''b.NII.GZ'')]),
           (latent_path, [Str (lit ''a_latent.npz''), Str (lit ''b_latent.npz'')])]\<rparr>"
  by (simp add: example_absent_def eval_defs numeral_2_eq_2)

text \<open>
  The two calls of \<open>main\<close> that write can fail once \<open>fill_latent\<close> has returned: \<open>main\<close>
  then ends with their exception uncaught, after \<open>to_csv\<close> has written the file when it
  is \<open>print\<close> that fails. On a standard output in ASCII that is what happens, for the
  arrow in the message.
\<close>

lemma main_output_fails:
  assumes "read_csv sys (Path sys (inp a)) w = Inr df" and "has_column df image_path"
    and "fill_latent df = Returned df'"
  shows "to_csv sys df' (out_path sys a) w = (Some e, w') \<Longrightarrow> main sys a w = (Uncaught e, w')"
    and "to_csv sys df' (out_path sys a) w = (None, w') \<Longrightarrow>
         print sys (written_msg (path_str sys (out_path sys a))) w' = (Some e, w'') \<Longrightarrow>
         main sys a w = (Uncaught e, w'')"
  using assms by (simp_all add: main_def)

lemma main_ascii_stdout:
  "main ascii_os \<lparr>inp = lit ''in.csv'', out = None\<rparr> ([(lit ''in.csv'', example_absent)], []) =
     (Uncaught UnicodeEncodeError,
      ([(lit ''in.csv'',
         \<lparr>nrows = 2,
          columns =
            [(image_path, [Str (lit ''a.nii''), Str (lit ''b.NII.GZ'')]),
             (latent_path, [Str (lit ''a_latent.npz''), Str (lit ''b_latent.npz'')])]\<rparr>),
        (lit ''in.csv'', example_absent)],
       []))"
proof -
  let ?a = "\<lparr>inp = lit ''in.csv'', out = None\<rparr>"
  let ?w = "([(lit ''in.csv'', example_absent)], []) :: (pystr \<times> frame) list \<times> pystr list"
  have r: "read_csv ascii_os (Path ascii_os (inp ?a)) ?w = Inr example_absent"
    by (simp add: ascii_os_def mem_os_def)
  have c: "has_column example_absent image_path"
    by (simp add: example_absent_def has_column_def)
  have o: "out_path ascii_os ?a = lit ''in.csv''"
    by (simp add: out_path_def ascii_os_def mem_os_def)
  show ?thesis
    by (rule main_output_fails(2)[OF r c fill_latent_example_absent])
       (simp_all add: o, simp_all add: ascii_os_def mem_os_def written_msg_def)
qed

section \<open>Properties of \<open>make_latent_path\<close>\<close>



text \<open>
  C2. A string that does not end with a recognized marker is to be refused with
  \<open>ValueError\<close>. The string \<open>scan.nii\<close> followed by a newline does not end with a marker,
  and \<open>make_latent_path\<close> returns a path for it.
\<close>

theorem make_latent_path_accepts_final_newline:
  "\<not> ends_with_marker (lit ''scan.nii'' @ [10]) \<and>
   make_latent_path (Str (lit ''scan.nii'' @ [10])) = Inr (Str (lit ''scan_latent.npz'' @ [10]))"
  by (simp add: lit_def latent_npz_def ends_with_marker_def is_n_def is_i_def at_dollar_def)

text \<open>
  C9. For a string \<open>s = p @ m\<close> that ends with a recognized marker, \<open>make_latent_path\<close>
  succeeds on \<open>s\<close> followed by a newline and returns what it returns for \<open>s\<close>, followed by
  the newline: the marker is replaced in front of the final newline.
\<close>

theorem make_latent_path_before_final_newline:
  "marker m \<Longrightarrow>
     make_latent_path (Str (p @ m)) = Inr (Str (p @ latent_npz)) \<and>
     make_latent_path (Str ((p @ m) @ [10])) = Inr (Str ((p @ latent_npz) @ [10]))"
  using make_latent_path_marker[of m "[]" p] make_latent_path_marker[of m "[10]" p]
  by (simp add: at_dollar_def)

theorem make_latent_path_before_final_newline_witness:
  "marker (lit ''.nii.gz'') \<and>
   make_latent_path (Str (lit ''scan'' @ lit ''.nii.gz'')) = Inr (Str (lit ''scan'' @ latent_npz)) \<and>
   make_latent_path (Str ((lit ''scan'' @ lit ''.nii.gz'') @ [10])) =
     Inr (Str ((lit ''scan'' @ latent_npz) @ [10]))"
  using make_latent_path_before_final_newline[of "lit ''.nii.gz''" "lit ''scan''"]
  by (simp add: lit_def is_n_def is_i_def is_g_def is_z_def)

section \<open>Properties of \<open>fill_latent\<close>\<close>

text \<open>
  C3. For a table whose \<open>image_path\<close> values all end with a recognized marker, with or
  without a \<open>latent_path\<close> column, \<open>fill_latent\<close> returns, and in the table it returns the
  column \<open>latent_path\<close> exists and every row holds a non-empty string that is either the
  value the row had before or the image path of the row with its trailing marker
  replaced by \<open>_latent.npz\<close>.
\<close>

theorem fill_latent_fills_every_row:
  assumes "wf_frame df" and "getitem df image_path = Inr img"
    and "\<forall>c \<in> set img. \<exists>s. c = Str s \<and> ends_with_marker s"
  shows "\<exists>df' lat'. fill_latent df = Returned df' \<and> getitem df' latent_path = Inr lat' \<and>
           length lat' = nrows df \<and>
           (\<forall>i < nrows df. \<exists>t. lat' ! i = Str t \<and> t \<noteq> [] \<and>
              (lat' ! i = prior_latent df ! i \<or>
               (\<exists>p m. img ! i = Str (p @ m) \<and> marker m \<and> t = p @ latent_npz)))"
proof -
  from fill_latent_succeeds[OF assms] obtain lat' where
    ret: "fill_latent df = Returned (set_column (ensure_latent df) latent_path lat')"
    and len: "length lat' = nrows df"
    and point: "\<forall>i < nrows df.
       (is_missing (prior_latent df ! i) \<longrightarrow> make_latent_path (img ! i) = Inr (lat' ! i)) \<and>
       (\<not> is_missing (prior_latent df ! i) \<longrightarrow> lat' ! i = prior_latent df ! i)"
    by blast
  have len_img: "length img = nrows df"
    using assms(1,2) by (simp add: getitem_Inr_iff wf_column_length)
  have get: "getitem (set_column (ensure_latent df) latent_path lat') latent_path = Inr lat'"
    by (simp add: getitem_Inr_iff map_of_set_column_same[of _ _ "prior_latent df"]
        map_of_ensure_latent)
  have row: "\<exists>t. lat' ! i = Str t \<and> t \<noteq> [] \<and>
              (lat' ! i = prior_latent df ! i \<or>
               (\<exists>p m. img ! i = Str (p @ m) \<and> marker m \<and> t = p @ latent_npz))"
    if i: "i < nrows df" for i
  proof (cases "is_missing (prior_latent df ! i)")
    case True
    with point i have r: "make_latent_path (img ! i) = Inr (lat' ! i)" by blast
    from i len_img have "img ! i \<in> set img" by simp
    with assms(3) obtain s where s: "img ! i = Str s" "ends_with_marker s" by blast
    from marked_cell_ok[OF s(2)] obtain p m where
      pm: "s = p @ m" "marker m" "make_latent_path (Str s) = Inr (Str (p @ latent_npz))" by blast
    have "lat' ! i = Str (p @ latent_npz)" using r s(1) pm(3) by simp
    moreover have "p @ latent_npz \<noteq> []" by (simp add: latent_npz_def lit_def)
    ultimately show ?thesis using s(1) pm(1,2) by blast
  next
    case False
    with point i have "lat' ! i = prior_latent df ! i" by blast
    with not_missing_nonempty[OF False] show ?thesis by auto
  qed
  from ret get len row show ?thesis by blast
qed

theorem fill_latent_fills_every_row_witness:
  "wf_frame example_absent \<and>
   getitem example_absent image_path = Inr [Str (lit ''a.nii''), Str (lit ''b.NII.GZ'')] \<and>
   ends_with_marker (lit ''a.nii'') \<and> ends_with_marker (lit ''b.NII.GZ'') \<and>
   (\<exists>df' lat'. fill_latent example_absent = Returned df' \<and>
      getitem df' latent_path = Inr lat' \<and> length lat' = nrows example_absent \<and>
      (\<forall>i < nrows example_absent. \<exists>t. lat' ! i = Str t \<and> t \<noteq> [] \<and>
         (lat' ! i = prior_latent example_absent ! i \<or>
          (\<exists>p m. [Str (lit ''a.nii''), Str (lit ''b.NII.GZ'')] ! i = Str (p @ m) \<and> marker m \<and>
             t = p @ latent_npz))))"
proof -
  have h1: "wf_frame example_absent"
    by (simp add: example_absent_def wf_frame_def)
  have h2: "getitem example_absent image_path = Inr [Str (lit ''a.nii''), Str (lit ''b.NII.GZ'')]"
    by (simp add: example_absent_def getitem_def)
  have m1: "ends_with_marker (lit ''a.nii'')"
    by (simp add: ends_with_marker_def lit_def is_n_def is_i_def)
  have m2: "ends_with_marker (lit ''b.NII.GZ'')"
    by (simp add: ends_with_marker_def lit_def is_n_def is_i_def is_g_def is_z_def)
  have h3: "\<forall>c \<in> set [Str (lit ''a.nii''), Str (lit ''b.NII.GZ'')]. \<exists>s. c = Str s \<and> ends_with_marker s"
    using m1 m2 by simp
  from fill_latent_fills_every_row[OF h1 h2 h3] h1 h2 m1 m2 show ?thesis by blast
qed

text \<open>
  C5. \<open>fill_latent\<close> changes the column \<open>latent_path\<close> only, whether it returns or raises:
  the number of rows, the labels and their order (but for a new \<open>latent_path\<close> at the end)
  and the cells of every other column stay as they were, and a row whose \<open>latent_path\<close>
  value is not blank keeps it, whatever the image path of the row is.
\<close>

theorem fill_latent_changes_only_blank_latent:
  assumes "wf_frame df"
  shows "nrows (frame_of (fill_latent df)) = nrows df \<and>
         map fst (columns (frame_of (fill_latent df))) =
           (if has_column df latent_path then map fst (columns df)
            else map fst (columns df) @ [latent_path]) \<and>
         (\<forall>name. name \<noteq> latent_path \<longrightarrow>
            map_of (columns (frame_of (fill_latent df))) name = map_of (columns df) name) \<and>
         (\<forall>lat i. getitem df latent_path = Inr lat \<and> i < nrows df \<and> \<not> blank (lat ! i) \<longrightarrow>
            (\<exists>lat'. getitem (frame_of (fill_latent df)) latent_path = Inr lat' \<and>
               lat' ! i = lat ! i))"
proof -
  let ?df' = "frame_of (fill_latent df)"
  from frame_of_fill_latent[OF assms] consider
    (same) "?df' = ensure_latent df"
  | (filled) lat' where "?df' = set_column (ensure_latent df) latent_path lat'"
      "\<forall>i < nrows df. \<not> is_missing (prior_latent df ! i) \<longrightarrow> lat' ! i = prior_latent df ! i"
    by blast
  then show ?thesis
  proof cases
    case same
    have "\<exists>lat'. getitem ?df' latent_path = Inr lat' \<and> lat' ! i = lat ! i"
      if "getitem df latent_path = Inr lat" for lat i
      using that same by (simp add: getitem_ensure_latent_latent prior_latent_getitem)
    then show ?thesis
      using same by (simp add: nrows_ensure_latent names_ensure_latent map_of_ensure_latent)
  next
    case filled
    have "\<exists>l. getitem ?df' latent_path = Inr l \<and> l ! i = lat ! i"
      if "getitem df latent_path = Inr lat" "i < nrows df" "\<not> blank (lat ! i)" for lat i
    proof -
      have "getitem ?df' latent_path = Inr lat'"
        using filled(1)
        by (simp add: getitem_Inr_iff map_of_set_column_same[of _ _ "prior_latent df"]
            map_of_ensure_latent)
      moreover have "lat' ! i = lat ! i"
        using filled(2) that by (simp add: prior_latent_getitem is_missing_blank)
      ultimately show ?thesis by blast
    qed
    then show ?thesis
      using filled(1)
      by (simp add: nrows_set_column nrows_ensure_latent names_set_column names_ensure_latent
          map_of_set_column_other map_of_ensure_latent)
  qed
qed

theorem fill_latent_changes_only_blank_latent_witness:
  "wf_frame example_partial \<and>
   nrows (frame_of (fill_latent example_partial)) = nrows example_partial \<and>
   map fst (columns (frame_of (fill_latent example_partial))) = map fst (columns example_partial) \<and>
   map_of (columns (frame_of (fill_latent example_partial))) image_path =
     map_of (columns example_partial) image_path \<and>
   getitem example_partial latent_path = Inr [Str (lit ''kept.npz''), Str (lit ''  ''), NaN] \<and>
   (0::nat) < nrows example_partial \<and>
   \<not> blank ([Str (lit ''kept.npz''), Str (lit ''  ''), NaN] ! 0) \<and>
   (\<exists>lat'. getitem (frame_of (fill_latent example_partial)) latent_path = Inr lat' \<and>
      lat' ! 0 = Str (lit ''kept.npz''))"
proof -
  have h: "wf_frame example_partial"
    by (simp add: example_partial_def wf_frame_def image_neq_latent)
  have c: "has_column example_partial latent_path"
    by (simp add: example_partial_def has_column_def)
  have g: "getitem example_partial latent_path = Inr [Str (lit ''kept.npz''), Str (lit ''  ''), NaN]"
    by (simp add: example_partial_def getitem_def image_neq_latent image_neq_latent[symmetric])
  have n: "(0::nat) < nrows example_partial"
    by (simp add: example_partial_def)
  have b: "\<not> blank ([Str (lit ''kept.npz''), Str (lit ''  ''), NaN] ! 0)"
    by (simp add: strip_def lit_def isspace_def)
  note t = fill_latent_changes_only_blank_latent[OF h]
  have k: "\<exists>lat'. getitem (frame_of (fill_latent example_partial)) latent_path = Inr lat' \<and>
      lat' ! 0 = [Str (lit ''kept.npz''), Str (lit ''  ''), NaN] ! 0"
    using t g n b by blast
  from t have "map_of (columns (frame_of (fill_latent example_partial))) image_path =
     map_of (columns example_partial) image_path"
    using image_neq_latent by blast
  moreover from t c have "map fst (columns (frame_of (fill_latent example_partial))) =
     map fst (columns example_partial)" by simp
  moreover from t have "nrows (frame_of (fill_latent example_partial)) = nrows example_partial"
    by blast
  ultimately show ?thesis using h g n b k by simp
qed

text \<open>
  C6. The rows \<open>fill_latent\<close> selects are exactly the rows whose \<open>latent_path\<close> value is
  unset or empty after trimming; a value of whitespace only is among them. When
  \<open>fill_latent\<close> returns, each selected row holds what \<open>make_latent_path\<close> returns for the
  image path of the row, and every other row holds its former value.
\<close>

theorem missing_set_is_unset_or_blank:
  assumes "wf_frame df" and "getitem df image_path = Inr img"
    and "fill_latent df = Returned df'"
  shows "(\<forall>i < nrows df. mask_missing (prior_latent df) ! i = blank (prior_latent df ! i)) \<and>
         (\<forall>s. (\<forall>c \<in> set s. isspace c) \<longrightarrow> blank (Str s)) \<and>
         (\<exists>lat'. getitem df' latent_path = Inr lat' \<and>
            (\<forall>i < nrows df.
               (blank (prior_latent df ! i) \<longrightarrow> make_latent_path (img ! i) = Inr (lat' ! i)) \<and>
               (\<not> blank (prior_latent df ! i) \<longrightarrow> lat' ! i = prior_latent df ! i)))"
proof -
  have mask: "\<forall>i < nrows df. mask_missing (prior_latent df) ! i = blank (prior_latent df ! i)"
    using length_prior_latent[OF assms(1)] by (simp add: mask_missing_def is_missing_blank)
  have ws: "\<forall>s. (\<forall>c \<in> set s. isspace c) \<longrightarrow> blank (Str s)"
    by (simp add: strip_Nil_iff)
  from fill_latent_cases[OF assms(1,2)] assms(3) obtain lat' where
    df': "df' = set_column (ensure_latent df) latent_path lat'"
    and point: "\<forall>i < nrows df.
       (is_missing (prior_latent df ! i) \<longrightarrow> make_latent_path (img ! i) = Inr (lat' ! i)) \<and>
       (\<not> is_missing (prior_latent df ! i) \<longrightarrow> lat' ! i = prior_latent df ! i)"
    by auto
  have "getitem df' latent_path = Inr lat'"
    using df'
    by (simp add: getitem_Inr_iff map_of_set_column_same[of _ _ "prior_latent df"]
        map_of_ensure_latent)
  with point mask ws show ?thesis unfolding is_missing_blank by blast
qed

theorem missing_set_is_unset_or_blank_witness:
  "wf_frame example_partial \<and>
   getitem example_partial image_path =
     Inr [Str (lit ''a.nii''), Str (lit ''b.nii.gz''), Str (lit ''c.nii'')] \<and>
   fill_latent example_partial =
     Returned \<lparr>nrows = 3,
       columns =
         [(image_path, [Str (lit ''a.nii''), Str (lit ''b.nii.gz''), Str (lit ''c.nii'')]),
          (latent_path,
           [Str (lit ''kept.npz''), Str (lit ''b_latent.npz''), Str (lit ''c_latent.npz'')])]\<rparr> \<and>
   (1::nat) < nrows example_partial \<and>
   prior_latent example_partial ! 1 = Str (lit ''  '') \<and>
   mask_missing (prior_latent example_partial) ! 1 = blank (Str (lit ''  '')) \<and>
   blank (Str (lit ''  '')) \<and>
   (\<exists>lat'. getitem \<lparr>nrows = 3,
       columns =
         [(image_path, [Str (lit ''a.nii''), Str (lit ''b.nii.gz''), Str (lit ''c.nii'')]),
          (latent_path,
           [Str (lit ''kept.npz''), Str (lit ''b_latent.npz''), Str (lit ''c_latent.npz'')])]\<rparr>
        latent_path = Inr lat' \<and>
      make_latent_path (Str (lit ''b.nii.gz'')) = Inr (lat' ! 1))"
proof -
  have h1: "wf_frame example_partial"
    by (simp add: example_partial_def wf_frame_def image_neq_latent)
  have h2: "getitem example_partial image_path =
     Inr [Str (lit ''a.nii''), Str (lit ''b.nii.gz''), Str (lit ''c.nii'')]"
    by (simp add: example_partial_def getitem_def)
  note h3 = fill_latent_example_partial
  have n: "(1::nat) < nrows example_partial"
    by (simp add: example_partial_def)
  have p: "prior_latent example_partial ! 1 = Str (lit ''  '')"
    by (simp add: example_partial_def prior_latent_def image_neq_latent[symmetric])
  have ws: "\<forall>c \<in> set (lit ''  ''). isspace c"
    by (simp add: lit_def isspace_def)
  note t = missing_set_is_unset_or_blank[OF h1 h2 h3]
  from t ws have b: "blank (Str (lit ''  ''))" by blast
  from t n p have m: "mask_missing (prior_latent example_partial) ! 1 = blank (Str (lit ''  ''))"
    by auto
  from t obtain lat' where l: "getitem \<lparr>nrows = 3,
       columns =
         [(image_path, [Str (lit ''a.nii''), Str (lit ''b.nii.gz''), Str (lit ''c.nii'')]),
          (latent_path,
           [Str (lit ''kept.npz''), Str (lit ''b_latent.npz''), Str (lit ''c_latent.npz'')])]\<rparr>
        latent_path = Inr lat'"
    and r: "\<forall>i < nrows example_partial.
         (blank (prior_latent example_partial ! i) \<longrightarrow>
            make_latent_path ([Str (lit ''a.nii''), Str (lit ''b.nii.gz''), Str (lit ''c.nii'')] ! i) =
              Inr (lat' ! i)) \<and>
         (\<not> blank (prior_latent example_partial ! i) \<longrightarrow>
            lat' ! i = prior_latent example_partial ! i)"
    by blast
  from r n have x: "blank (prior_latent example_partial ! 1) \<longrightarrow>
      make_latent_path ([Str (lit ''a.nii''), Str (lit ''b.nii.gz''), Str (lit ''c.nii'')] ! 1) =
        Inr (lat' ! 1)"
    by blast
  have y: "[Str (lit ''a.nii''), Str (lit ''b.nii.gz''), Str (lit ''c.nii'')] ! 1 =
      Str (lit ''b.nii.gz'')"
    by simp
  from x[unfolded p y] b have "make_latent_path (Str (lit ''b.nii.gz'')) = Inr (lat' ! 1)"
    by blast
  with l h1 h2 h3 n p m b show ?thesis by blast
qed

text \<open>
  C7. For a table whose \<open>image_path\<close> values all end with a recognized marker,
  \<open>fill_latent\<close> returns a table on which \<open>fill_latent\<close> returns the same table again.
\<close>

theorem fill_latent_idempotent:
  assumes "wf_frame df" and "getitem df image_path = Inr img"
    and "\<forall>c \<in> set img. \<exists>s. c = Str s \<and> ends_with_marker s"
  shows "\<exists>df'. fill_latent df = Returned df' \<and> fill_latent df' = Returned df'"
proof -
  from fill_latent_succeeds[OF assms] obtain df' where ret: "fill_latent df = Returned df'"
    by blast
  from fill_latent_idem[OF assms(1) ret] ret show ?thesis by blast
qed

theorem fill_latent_idempotent_witness:
  "wf_frame example_partial \<and>
   getitem example_partial image_path =
     Inr [Str (lit ''a.nii''), Str (lit ''b.nii.gz''), Str (lit ''c.nii'')] \<and>
   ends_with_marker (lit ''a.nii'') \<and> ends_with_marker (lit ''b.nii.gz'') \<and>
   ends_with_marker (lit ''c.nii'') \<and>
   (\<exists>df'. fill_latent example_partial = Returned df' \<and> fill_latent df' = Returned df')"
proof -
  have h1: "wf_frame example_partial"
    by (simp add: example_partial_def wf_frame_def image_neq_latent)
  have h2: "getitem example_partial image_path =
     Inr [Str (lit ''a.nii''), Str (lit ''b.nii.gz''), Str (lit ''c.nii'')]"
    by (simp add: example_partial_def getitem_def)
  have m: "ends_with_marker (lit ''a.nii'')" "ends_with_marker (lit ''b.nii.gz'')"
    "ends_with_marker (lit ''c.nii'')"
    by (simp_all add: ends_with_marker_def lit_def is_n_def is_i_def is_g_def is_z_def)
  then have h3: "\<forall>c \<in> set [Str (lit ''a.nii''), Str (lit ''b.nii.gz''), Str (lit ''c.nii'')].
      \<exists>s. c = Str s \<and> ends_with_marker s"
    by simp
  from fill_latent_idempotent[OF h1 h2 h3] h1 h2 m show ?thesis by blast
qed

text \<open>
  C10. When \<open>make_latent_path\<close> fails for a selected row, \<open>fill_latent\<close> raises before it
  assigns anything: the \<open>latent_path\<close> values are the ones on entry. A table that had the
  column is left as it was; a table that had not is left with the new column, unset in
  every row, and so differs from the table on entry.
\<close>

theorem failure_keeps_created_column:
  assumes "wf_frame df" and "getitem df image_path = Inr img"
    and "i < nrows df" and "is_missing (prior_latent df ! i)"
    and "make_latent_path (img ! i) = Inl e0"
  shows "\<exists>e. fill_latent df = Raised e (ensure_latent df) \<and>
           getitem (ensure_latent df) latent_path = Inr (prior_latent df) \<and>
           (has_column df latent_path \<longrightarrow> ensure_latent df = df) \<and>
           (\<not> has_column df latent_path \<longrightarrow>
              ensure_latent df =
                df\<lparr>columns := columns df @ [(latent_path, replicate (nrows df) PdNA)]\<rparr> \<and>
              prior_latent df = replicate (nrows df) PdNA \<and>
              ensure_latent df \<noteq> df)"
proof -
  from fill_latent_raises[OF assms] obtain e where
    e: "fill_latent df = Raised e (ensure_latent df)" by blast
  have neq: "ensure_latent df \<noteq> df" if "\<not> has_column df latent_path"
  proof
    assume "ensure_latent df = df"
    then have "columns (ensure_latent df) = columns df" by simp
    then have "length (columns df @ [(latent_path, replicate (nrows df) PdNA)]) = length (columns df)"
      using that by (simp add: ensure_latent_absent)
    then show False by simp
  qed
  have pr: "prior_latent df = replicate (nrows df) PdNA" if "\<not> has_column df latent_path"
    using that by (simp add: prior_latent_def has_column_map_of)
  show ?thesis
    using e neq pr
    by (auto simp: getitem_ensure_latent_latent ensure_latent_present ensure_latent_absent)
qed

theorem failure_keeps_created_column_witness:
  "wf_frame example_bad \<and>
   getitem example_bad image_path = Inr [Str (lit ''a.nii''), Str (lit ''b.txt'')] \<and>
   (1::nat) < nrows example_bad \<and>
   is_missing (prior_latent example_bad ! 1) \<and>
   make_latent_path ([Str (lit ''a.nii''), Str (lit ''b.txt'')] ! 1) = Inl (ValueError (lit ''b.txt'')) \<and>
   \<not> has_column example_bad latent_path \<and>
   (\<exists>e. fill_latent example_bad = Raised e (ensure_latent example_bad)) \<and>
   getitem (ensure_latent example_bad) latent_path = Inr (replicate (nrows example_bad) PdNA) \<and>
   ensure_latent example_bad =
     example_bad\<lparr>columns := columns example_bad @
       [(latent_path, replicate (nrows example_bad) PdNA)]\<rparr> \<and>
   ensure_latent example_bad \<noteq> example_bad"
proof -
  note f = example_bad_facts
  from failure_keeps_created_column[OF f(1,2,3,5,6)] f show ?thesis by auto
qed

section \<open>Properties of \<open>main\<close>\<close>

text \<open>
  C4. When \<open>make_latent_path\<close> fails for a row \<open>fill_latent\<close> selects, \<open>fill_latent\<close> raises
  the error of such a row and no \<open>latent_path\<close> value is assigned; \<open>main\<close> ends with that
  error uncaught and leaves the world as it found it: nothing is written, nothing is
  printed.
\<close>

theorem failure_aborts_without_output:
  assumes "wf_frame df" and "getitem df image_path = Inr img"
    and "i < nrows df" and "is_missing (prior_latent df ! i)"
    and "make_latent_path (img ! i) = Inl e0"
    and "read_csv sys (Path sys (inp a)) w = Inr df"
  shows "\<exists>e. fill_latent df = Raised e (ensure_latent df) \<and>
           (\<exists>j < nrows df. is_missing (prior_latent df ! j) \<and> make_latent_path (img ! j) = Inl e) \<and>
           getitem (ensure_latent df) latent_path = Inr (prior_latent df) \<and>
           main sys a w = (Uncaught e, w)"
proof -
  from fill_latent_raises[OF assms(1-5)] obtain e where
    e: "fill_latent df = Raised e (ensure_latent df)"
    and j: "\<exists>j < nrows df. is_missing (prior_latent df ! j) \<and> make_latent_path (img ! j) = Inl e"
    by blast
  have "main sys a w = (Uncaught e, w)"
    by (rule main_raised[OF assms(6) getitem_has_column[OF assms(2)] e])
  with e j show ?thesis by (simp add: getitem_ensure_latent_latent)
qed

theorem failure_aborts_without_output_witness:
  "wf_frame example_bad \<and>
   getitem example_bad image_path = Inr [Str (lit ''a.nii''), Str (lit ''b.txt'')] \<and>
   (1::nat) < nrows example_bad \<and>
   is_missing (prior_latent example_bad ! 1) \<and>
   make_latent_path ([Str (lit ''a.nii''), Str (lit ''b.txt'')] ! 1) = Inl (ValueError (lit ''b.txt'')) \<and>
   read_csv mem_os (Path mem_os (inp \<lparr>inp = lit ''in.csv'', out = None\<rparr>))
     ([(lit ''in.csv'', example_bad)], []) = Inr example_bad \<and>
   (\<exists>e. fill_latent example_bad = Raised e (ensure_latent example_bad) \<and>
      (\<exists>j < nrows example_bad. is_missing (prior_latent example_bad ! j) \<and>
         make_latent_path ([Str (lit ''a.nii''), Str (lit ''b.txt'')] ! j) = Inl e) \<and>
      getitem (ensure_latent example_bad) latent_path = Inr (prior_latent example_bad) \<and>
      main mem_os \<lparr>inp = lit ''in.csv'', out = None\<rparr> ([(lit ''in.csv'', example_bad)], []) =
        (Uncaught e, ([(lit ''in.csv'', example_bad)], [])))"
proof -
  have r: "read_csv mem_os (Path mem_os (inp \<lparr>inp = lit ''in.csv'', out = None\<rparr>))
     ([(lit ''in.csv'', example_bad)], []) = Inr example_bad"
    by (simp add: mem_os_def)
  note f = example_bad_facts
  from failure_aborts_without_output[OF f(1,2,3,5,6) r] f(1,2,3,5,6) r show ?thesis by blast
qed

text \<open>
  C8. When the table read has no column \<open>image_path\<close>, \<open>main\<close> exits with the message
  \<open>CSV must contain an 'image_path' column.\<close> and a status that is not zero, and the
  world is as before: no file is written. Otherwise \<open>main\<close> completes exactly when
  \<open>fill_latent\<close> returns and \<open>to_csv\<close> and \<open>print\<close> succeed; it has then written the filled
  table to the output path, which is the input path unless \<open>--out\<close> gives another, and
  printed the one line \<open>Latent paths written\<close>, the arrow U+2192, a space and the output
  path.
\<close>

theorem main_exit_behaviour:
  assumes "read_csv sys (Path sys (inp a)) w = Inr df"
  shows "(\<not> has_column df image_path \<longrightarrow>
            main sys a w =
              (SystemExit
                 (lit ''CSV must contain an '' @ [39] @ lit ''image_path'' @ [39] @ lit '' column.''),
               w) \<and>
            exit_status (fst (main sys a w)) \<noteq> 0) \<and>
         (\<forall>df' w' w''. has_column df image_path \<and> fill_latent df = Returned df' \<and>
              to_csv sys df' (out_path sys a) w = (None, w') \<and>
              print sys
                (lit ''Latent paths written '' @ [8594] @ lit '' '' @ path_str sys (out_path sys a))
                w' = (None, w'') \<longrightarrow>
            main sys a w = (Completed, w'')) \<and>
         (\<forall>w''. main sys a w = (Completed, w'') \<longrightarrow>
            has_column df image_path \<and>
            (\<exists>df' w'. fill_latent df = Returned df' \<and>
               to_csv sys df' (out_path sys a) w = (None, w') \<and>
               print sys
                 (lit ''Latent paths written '' @ [8594] @ lit '' '' @ path_str sys (out_path sys a))
                 w' = (None, w''))) \<and>
         (out a = None \<longrightarrow> out_path sys a = Path sys (inp a)) \<and>
         (out a = Some [] \<longrightarrow> out_path sys a = Path sys (inp a)) \<and>
         (\<forall>p. out a = Some p \<and> p \<noteq> [] \<longrightarrow> out_path sys a = Path sys p)"
proof -
  let ?line = "lit ''Latent paths written '' @ [8594] @ lit '' '' @ path_str sys (out_path sys a)"
  have line: "written_msg (path_str sys (out_path sys a)) = ?line"
    by (simp add: written_msg_def)
  have absent: "main sys a w =
      (SystemExit
         (lit ''CSV must contain an '' @ [39] @ lit ''image_path'' @ [39] @ lit '' column.''), w)"
    if "\<not> has_column df image_path"
    using assms that by (simp add: main_def missing_column_msg_def)
  have forth: "main sys a w = (Completed, v)"
    if "has_column df image_path" "fill_latent df = Returned df'"
      "to_csv sys df' (out_path sys a) w = (None, w')" "print sys ?line w' = (None, v)"
    for df' w' v
    using assms that by (simp add: main_def line)
  have conv: "has_column df image_path \<and>
      (\<exists>df' w'. fill_latent df = Returned df' \<and>
         to_csv sys df' (out_path sys a) w = (None, w') \<and> print sys ?line w' = (None, v))"
    if fin: "main sys a w = (Completed, v)" for v
  proof -
    from fin assms have col: "has_column df image_path"
      by (auto simp: main_def split: if_splits)
    from fin assms col obtain df' where ret: "fill_latent df = Returned df'"
      by (cases "fill_latent df") (auto simp: main_def)
    obtain r w' where tc: "to_csv sys df' (out_path sys a) w = (r, w')"
      by (cases "to_csv sys df' (out_path sys a) w")
    from fin assms col ret tc have r: "r = None"
      by (cases r) (auto simp: main_def)
    obtain q u where pr: "print sys ?line w' = (q, u)"
      by (cases "print sys ?line w'")
    from fin assms col ret tc r pr have "q = None \<and> u = v"
      by (cases q) (auto simp: main_def line)
    with col ret tc r pr show ?thesis by blast
  qed
  have dest: "(out a = None \<longrightarrow> out_path sys a = Path sys (inp a)) \<and>
         (out a = Some [] \<longrightarrow> out_path sys a = Path sys (inp a)) \<and>
         (\<forall>p. out a = Some p \<and> p \<noteq> [] \<longrightarrow> out_path sys a = Path sys p)"
    by (auto simp: out_path_def)
  from absent have "\<not> has_column df image_path \<longrightarrow>
      main sys a w =
        (SystemExit
           (lit ''CSV must contain an '' @ [39] @ lit ''image_path'' @ [39] @ lit '' column.''), w) \<and>
      exit_status (fst (main sys a w)) \<noteq> 0"
    by simp
  with forth conv dest show ?thesis by blast
qed

theorem main_exit_behaviour_witness:
  "read_csv mem_os (Path mem_os (inp \<lparr>inp = lit ''in.csv'', out = None\<rparr>))
     ([(lit ''in.csv'', example_no_image)], []) = Inr example_no_image \<and>
   \<not> has_column example_no_image image_path \<and>
   main mem_os \<lparr>inp = lit ''in.csv'', out = None\<rparr> ([(lit ''in.csv'', example_no_image)], []) =
     (SystemExit
        (lit ''CSV must contain an '' @ [39] @ lit ''image_path'' @ [39] @ lit '' column.''),
      ([(lit ''in.csv'', example_no_image)], [])) \<and>
   read_csv mem_os (Path mem_os (inp \<lparr>inp = lit ''in.csv'', out = Some (lit ''out.csv'')\<rparr>))
     ([(lit ''in.csv'', example_absent)], []) = Inr example_absent \<and>
   has_column example_absent image_path \<and>
   main mem_os \<lparr>inp = lit ''in.csv'', out = Some (lit ''out.csv'')\<rparr>
     ([(lit ''in.csv'', example_absent)], []) =
     (Completed,
      ([(lit ''out.csv'',
         \<lparr>nrows = 2,
          columns =
            [(image_path, [Str (lit ''a.nii''), Str (lit ''b.NII.GZ'')]),
             (latent_path, [Str (lit ''a_latent.npz''), Str (lit ''b_latent.npz'')])]\<rparr>),
        (lit ''in.csv'', example_absent)],
       [lit ''Latent paths written '' @ [8594] @ lit '' out.csv'']))"
proof -
  let ?a1 = "\<lparr>inp = lit ''in.csv'', out = None\<rparr>"
  let ?w1 = "([(lit ''in.csv'', example_no_image)], []) :: (pystr \<times> frame) list \<times> pystr list"
  let ?a2 = "\<lparr>inp = lit ''in.csv'', out = Some (lit ''out.csv'')\<rparr>"
  let ?w2 = "([(lit ''in.csv'', example_absent)], []) :: (pystr \<times> frame) list \<times> pystr list"
  let ?df' = "\<lparr>nrows = 2,
          columns =
            [(image_path, [Str (lit ''a.nii''), Str (lit ''b.NII.GZ'')]),
             (latent_path, [Str (lit ''a_latent.npz''), Str (lit ''b_latent.npz'')])]\<rparr>"
  let ?w2' = "([(lit ''out.csv'', ?df'), (lit ''in.csv'', example_absent)], [])
      :: (pystr \<times> frame) list \<times> pystr list"
  let ?w2'' = "([(lit ''out.csv'', ?df'), (lit ''in.csv'', example_absent)],
      [lit ''Latent paths written '' @ [8594] @ lit '' out.csv''])
      :: (pystr \<times> frame) list \<times> pystr list"
  have r1: "read_csv mem_os (Path mem_os (inp ?a1)) ?w1 = Inr example_no_image"
    by (simp add: mem_os_def)
  have c1: "\<not> has_column example_no_image image_path"
    by (simp add: example_no_image_def has_column_def image_path_def lit_def)
  have r2: "read_csv mem_os (Path mem_os (inp ?a2)) ?w2 = Inr example_absent"
    by (simp add: mem_os_def)
  have c2: "has_column example_absent image_path"
    by (simp add: example_absent_def has_column_def)
  have o2: "out_path mem_os ?a2 = lit ''out.csv''"
    by (simp add: out_path_def mem_os_def lit_def)
  have t2: "to_csv mem_os ?df' (out_path mem_os ?a2) ?w2 = (None, ?w2')"
    by (simp add: o2) (simp add: mem_os_def)
  have p2: "print mem_os
      (lit ''Latent paths written '' @ [8594] @ lit '' '' @ path_str mem_os (out_path mem_os ?a2))
      ?w2' = (None, ?w2'')"
    by (simp add: o2) (simp add: mem_os_def lit_def)
  from main_exit_behaviour[OF r1] c1
  have m1: "main mem_os ?a1 ?w1 =
      (SystemExit
         (lit ''CSV must contain an '' @ [39] @ lit ''image_path'' @ [39] @ lit '' column.''), ?w1)"
    by blast
  from main_exit_behaviour[OF r2] c2 fill_latent_example_absent t2 p2
  have m2: "main mem_os ?a2 ?w2 = (Completed, ?w2'')"
    by blast
  from r1 c1 m1 r2 c2 m2 show ?thesis by blast
qed

end
